theory Spec2Isabelle
  imports Main "HOL-Library.Multiset"
begin

section \<open>The pattern-language validator of ImHex (source/lang/validator.cpp)\<close>

subsection \<open>The AST\<close>

text \<open>
  Modelled from the spec: the node classes of \<^verbatim>\<open>hex/lang/ast_node.hpp\<close>, which is not
  among the sources. The constructors carry the fields that \<^verbatim>\<open>validator.cpp\<close> reads
  through the accessors (\<^verbatim>\<open>getLineNumber\<close>, \<^verbatim>\<open>getName\<close>, \<^verbatim>\<open>getType\<close>,
  \<^verbatim>\<open>getMembers\<close>, \<^verbatim>\<open>getEntries\<close>, ...), the line number first. A child pointer
  \<^verbatim>\<open>ASTNode*\<close> is an \<open>ASTNode option\<close>, \<open>None\<close> being \<^verbatim>\<open>nullptr\<close>. The value of an enum or
  bitfield entry is a node, not an option: \<^verbatim>\<open>validate\<close> calls \<^verbatim>\<open>value->getLineNumber()\<close>
  without a null check, so the model's type keeps null out of that position. The classes are
  siblings under \<^verbatim>\<open>ASTNode\<close> (\<^verbatim>\<open>printAST\<close> tests for a pointer declaration after it has
  tested for a variable declaration), so one \<^verbatim>\<open>dynamic_cast\<close> succeeds for one constructor.
  Names are C strings: the validator reads them through \<^verbatim>\<open>getName().data()\<close>.
\<close>

datatype Endian = Little | Big

datatype Operator = Plus | Minus | Star | Slash | ShiftLeft | ShiftRight | BitAnd | BitOr | BitXor

datatype ASTNode =
    ASTNodeIntegerLiteral nat int
  | ASTNodeNumericExpression nat "ASTNode option" Operator "ASTNode option"
  | ASTNodeBuiltinType nat nat
  | ASTNodeRValue nat "string list"
  | ASTNodeTypeDecl nat string "ASTNode option" "Endian option"
  | ASTNodeVariableDecl nat string "ASTNode option" "ASTNode option"
  | ASTNodePointerVariableDecl nat string "ASTNode option" "ASTNode option" "ASTNode option"
  | ASTNodeArrayVariableDecl nat string "ASTNode option" "ASTNode option" "ASTNode option"
  | ASTNodeStruct nat "ASTNode option list"
  | ASTNodeUnion nat "ASTNode option list"
  | ASTNodeEnum nat "(string \<times> ASTNode) list"
  | ASTNodeBitfield nat "(string \<times> ASTNode) list"

fun getLineNumber :: "ASTNode \<Rightarrow> nat" where
  "getLineNumber (ASTNodeIntegerLiteral l _) = l"
| "getLineNumber (ASTNodeNumericExpression l _ _ _) = l"
| "getLineNumber (ASTNodeBuiltinType l _) = l"
| "getLineNumber (ASTNodeRValue l _) = l"
| "getLineNumber (ASTNodeTypeDecl l _ _ _) = l"
| "getLineNumber (ASTNodeVariableDecl l _ _ _) = l"
| "getLineNumber (ASTNodePointerVariableDecl l _ _ _ _) = l"
| "getLineNumber (ASTNodeArrayVariableDecl l _ _ _ _) = l"
| "getLineNumber (ASTNodeStruct l _) = l"
| "getLineNumber (ASTNodeUnion l _) = l"
| "getLineNumber (ASTNodeEnum l _) = l"
| "getLineNumber (ASTNodeBitfield l _) = l"

subsection \<open>Diagnostics and the validator object\<close>

text \<open>
  Modelled from the spec: \<^verbatim>\<open>ValidatorError\<close>, \<^verbatim>\<open>throwValidateError\<close> and the field
  \<^verbatim>\<open>m_error\<close> are declared in \<^verbatim>\<open>hex/lang/validator.hpp\<close>, which is not among the
  sources. A diagnostic is a message and a line number; throwing is the \<open>Inl\<close> branch of the two
  functions below; the object's only state is the diagnostic stored last.
\<close>

datatype ValidatorError = ValidatorError (message: string) (lineNumber: nat)

record Validator =
  m_error :: ValidatorError

definition nullptrError :: ValidatorError where
  "nullptrError = ValidatorError ''nullptr in AST. This is a bug!'' 1"

definition redefinitionOfIdentifier :: "string \<Rightarrow> nat \<Rightarrow> ValidatorError" where
  "redefinitionOfIdentifier name l =
     ValidatorError (''redefinition of identifier '' @ [CHR 0x27] @ name @ [CHR 0x27]) l"

definition redefinitionOfEnumConstant :: "string \<Rightarrow> nat \<Rightarrow> ValidatorError" where
  "redefinitionOfEnumConstant name l =
     ValidatorError (''redefinition of enum constant '' @ [CHR 0x27] @ name @ [CHR 0x27]) l"

subsection \<open>validate\<close>

text \<open>
  The inner loop over an enum's entries (lines 38 to 42): \<open>enumIdentifiers\<close> is threaded
  through, \<open>insert(name).second\<close> is false exactly when the name is already in the set, and
  the result is the error thrown, if any.
\<close>

fun enum_loop :: "string set \<Rightarrow> (string \<times> ASTNode) list \<Rightarrow> ValidatorError option" where
  "enum_loop enumIdentifiers [] = None"
| "enum_loop enumIdentifiers ((name, v) # entries) =
     (if name \<in> enumIdentifiers
      then Some (redefinitionOfEnumConstant name (getLineNumber v))
      else enum_loop (insert name enumIdentifiers) entries)"

text \<open>
  \<open>validate this ast\<close> is the method (lines 14 to 52): it runs the loop from the empty set
  \<open>identifiers\<close>; an error thrown inside the \<^verbatim>\<open>try\<close> block is caught by this very call,
  stored in \<open>m_error\<close>, and the call returns \<open>false\<close>; otherwise it returns \<open>true\<close>.

  \<open>validate_loop identifiers this nodes\<close> is the \<^verbatim>\<open>for\<close> loop over the remaining nodes
  (lines 19 to 44): \<open>Inl e\<close> when \<open>e\<close> is thrown, \<open>Inr this'\<close> when the loop runs to its end.
  The recursive calls of lines 27, 32, 34 and 36 are calls of \<open>validate\<close>: each has its own
  \<^verbatim>\<open>try\<close>/\<^verbatim>\<open>catch\<close>, so nothing is thrown out of them; they may change \<open>m_error\<close>, and
  the loop drops the boolean they return (\<open>snd\<close>).
\<close>

function validate :: "Validator \<Rightarrow> ASTNode option list \<Rightarrow> bool \<times> Validator"
  and validate_loop :: "string set \<Rightarrow> Validator \<Rightarrow> ASTNode option list \<Rightarrow> ValidatorError + Validator"
where
  "validate this ast =
     (case validate_loop {} this ast of
        Inl e \<Rightarrow> (False, this\<lparr>m_error := e\<rparr>)
      | Inr this' \<Rightarrow> (True, this'))"
| "validate_loop identifiers this [] = Inr this"
| "validate_loop identifiers this (None # nodes) = Inl nullptrError"
| "validate_loop identifiers this (Some (ASTNodeVariableDecl l name type offset) # nodes) =
     (if name \<in> identifiers then Inl (redefinitionOfIdentifier name l)
      else validate_loop (insert name identifiers) (snd (validate this [type])) nodes)"
| "validate_loop identifiers this (Some (ASTNodeTypeDecl l name type endian) # nodes) =
     (if name \<in> identifiers then Inl (redefinitionOfIdentifier name l)
      else validate_loop (insert name identifiers) (snd (validate this [type])) nodes)"
| "validate_loop identifiers this (Some (ASTNodeStruct l members) # nodes) =
     validate_loop identifiers (snd (validate this members)) nodes"
| "validate_loop identifiers this (Some (ASTNodeUnion l members) # nodes) =
     validate_loop identifiers (snd (validate this members)) nodes"
| "validate_loop identifiers this (Some (ASTNodeEnum l entries) # nodes) =
     (case enum_loop {} entries of
        Some e \<Rightarrow> Inl e
      | None \<Rightarrow> validate_loop identifiers this nodes)"
| "validate_loop identifiers this (Some (ASTNodeIntegerLiteral l v) # nodes) =
     validate_loop identifiers this nodes"
| "validate_loop identifiers this (Some (ASTNodeNumericExpression l lhs op rhs) # nodes) =
     validate_loop identifiers this nodes"
| "validate_loop identifiers this (Some (ASTNodeBuiltinType l t) # nodes) =
     validate_loop identifiers this nodes"
| "validate_loop identifiers this (Some (ASTNodeRValue l path) # nodes) =
     validate_loop identifiers this nodes"
| "validate_loop identifiers this (Some (ASTNodePointerVariableDecl l name type sizeType offset) # nodes) =
     validate_loop identifiers this nodes"
| "validate_loop identifiers this (Some (ASTNodeArrayVariableDecl l name type sz offset) # nodes) =
     validate_loop identifiers this nodes"
| "validate_loop identifiers this (Some (ASTNodeBitfield l entries) # nodes) =
     validate_loop identifiers this nodes"
  by pat_completeness auto

text \<open>
  Every recursive call is on a strictly smaller part of the tree: the singleton list of a
  declaration's type, a member list, or the rest of the list; \<open>validate\<close> enters its loop on
  the same list.
\<close>

termination
  by (relation "measure (\<lambda>x. case x of
        Inl (this, ast) \<Rightarrow> 2 * size_list (size_option size) ast + 1
      | Inr (identifiers, this, nodes) \<Rightarrow> 2 * size_list (size_option size) nodes)")
     auto

text \<open>
  The constructor (lines 10 to 12) has an empty body, so a new validator holds whatever the
  default constructor of \<open>m_error\<close> gives; the header is not among the sources, and the
  concrete runs below start from the empty message and line 0. Nothing rests on this
  choice: the general statements hold for every validator.
\<close>

definition newValidator :: Validator where
  "newValidator = \<lparr>m_error = ValidatorError [] 0\<rparr>"

subsection \<open>Vocabulary for the properties\<close>

text \<open>
  \<open>declName\<close> is the name that the loop inserts into \<open>identifiers\<close> for a node: only
  variable and type declarations have one. \<open>declNames\<close> lists these names for the nodes of
  one list, in order; \<open>enumEntries\<close> gives the entries that the loop checks for a node.
\<close>

fun declName :: "ASTNode \<Rightarrow> string option" where
  "declName (ASTNodeVariableDecl l name type offset) = Some name"
| "declName (ASTNodeTypeDecl l name type endian) = Some name"
| "declName _ = None"

fun declNames :: "ASTNode option list \<Rightarrow> string list" where
  "declNames [] = []"
| "declNames (None # nodes) = declNames nodes"
| "declNames (Some node # nodes) =
     (case declName node of Some name \<Rightarrow> name # declNames nodes | None \<Rightarrow> declNames nodes)"

fun enumEntries :: "ASTNode option \<Rightarrow> (string \<times> ASTNode) list" where
  "enumEntries (Some (ASTNodeEnum l entries)) = entries"
| "enumEntries _ = []"

text \<open>
  \<open>checked\<close> holds of the five node kinds that the loop has a branch for (lines 23, 28, 33,
  35 and 37); every other node falls through all five \<^verbatim>\<open>dynamic_cast\<close>s.
\<close>

fun checked :: "ASTNode \<Rightarrow> bool" where
  "checked (ASTNodeVariableDecl l name type offset) = True"
| "checked (ASTNodeTypeDecl l name type endian) = True"
| "checked (ASTNodeStruct l members) = True"
| "checked (ASTNodeUnion l members) = True"
| "checked (ASTNodeEnum l entries) = True"
| "checked _ = False"

text \<open>
  \<open>conflict_free\<close> follows the words of the specification, not the code: a node list is
  conflict free when it holds no null reference, no two of its declarations have the same
  name, every enum in it has pairwise different constant names, and the same is true of
  the singleton list of each declaration's type and of each struct's or union's member
  list. Names are compared inside one list only, never across lists.
\<close>

fun conflict_free :: "ASTNode option list \<Rightarrow> bool"
  and conflict_free_nodes :: "ASTNode option list \<Rightarrow> bool"
  and conflict_free_node :: "ASTNode \<Rightarrow> bool"
where
  "conflict_free ast \<longleftrightarrow> distinct (declNames ast) \<and> conflict_free_nodes ast"
| "conflict_free_nodes [] \<longleftrightarrow> True"
| "conflict_free_nodes (None # nodes) \<longleftrightarrow> False"
| "conflict_free_nodes (Some node # nodes) \<longleftrightarrow> conflict_free_node node \<and> conflict_free_nodes nodes"
| "conflict_free_node (ASTNodeVariableDecl l name type offset) \<longleftrightarrow> conflict_free [type]"
| "conflict_free_node (ASTNodeTypeDecl l name type endian) \<longleftrightarrow> conflict_free [type]"
| "conflict_free_node (ASTNodeStruct l members) \<longleftrightarrow> conflict_free members"
| "conflict_free_node (ASTNodeUnion l members) \<longleftrightarrow> conflict_free members"
| "conflict_free_node (ASTNodeEnum l entries) \<longleftrightarrow> distinct (map fst entries)"
| "conflict_free_node _ \<longleftrightarrow> True"

subsection \<open>The size of an AST\<close>

text \<open>
  \<open>countList ast\<close> is the number of node references in the tree below the list \<open>ast\<close>:
  every element of every child list and every child pointer counts once, null or not.
\<close>

fun countNode :: "ASTNode \<Rightarrow> nat"
  and countRef :: "ASTNode option \<Rightarrow> nat"
  and countList :: "ASTNode option list \<Rightarrow> nat"
  and countEntries :: "(string \<times> ASTNode) list \<Rightarrow> nat"
where
  "countNode (ASTNodeIntegerLiteral l v) = 1"
| "countNode (ASTNodeNumericExpression l lhs op rhs) = 1 + countRef lhs + countRef rhs"
| "countNode (ASTNodeBuiltinType l t) = 1"
| "countNode (ASTNodeRValue l path) = 1"
| "countNode (ASTNodeTypeDecl l name type endian) = 1 + countRef type"
| "countNode (ASTNodeVariableDecl l name type offset) = 1 + countRef type + countRef offset"
| "countNode (ASTNodePointerVariableDecl l name type sizeType offset) =
     1 + countRef type + countRef sizeType + countRef offset"
| "countNode (ASTNodeArrayVariableDecl l name type sz offset) =
     1 + countRef type + countRef sz + countRef offset"
| "countNode (ASTNodeStruct l members) = 1 + countList members"
| "countNode (ASTNodeUnion l members) = 1 + countList members"
| "countNode (ASTNodeEnum l entries) = 1 + countEntries entries"
| "countNode (ASTNodeBitfield l entries) = 1 + countEntries entries"
| "countRef None = 1"
| "countRef (Some node) = countNode node"
| "countList [] = 0"
| "countList (node # nodes) = countRef node + countList nodes"
| "countEntries [] = 0"
| "countEntries ((name, v) # entries) = countNode v + countEntries entries"

subsection \<open>validate with a bound on the call depth\<close>

text \<open>
  The same method with fuel: every call of \<open>validate\<close> and every turn of the loop takes
  one unit, and \<open>None\<close> means that the fuel ran out before the call returned. The
  recursion is on the fuel, so this definition does not rest on the termination proof above.
\<close>

fun validate_fuel :: "nat \<Rightarrow> Validator \<Rightarrow> ASTNode option list \<Rightarrow> (bool \<times> Validator) option"
  and validate_loop_fuel ::
    "nat \<Rightarrow> string set \<Rightarrow> Validator \<Rightarrow> ASTNode option list \<Rightarrow> (ValidatorError + Validator) option"
where
  "validate_fuel 0 this ast = None"
| "validate_fuel (Suc k) this ast =
     (case validate_loop_fuel k {} this ast of
        None \<Rightarrow> None
      | Some (Inl e) \<Rightarrow> Some (False, this\<lparr>m_error := e\<rparr>)
      | Some (Inr this') \<Rightarrow> Some (True, this'))"
| "validate_loop_fuel 0 identifiers this nodes = None"
| "validate_loop_fuel (Suc k) identifiers this [] = Some (Inr this)"
| "validate_loop_fuel (Suc k) identifiers this (None # nodes) = Some (Inl nullptrError)"
| "validate_loop_fuel (Suc k) identifiers this (Some (ASTNodeVariableDecl l name type offset) # nodes) =
     (if name \<in> identifiers then Some (Inl (redefinitionOfIdentifier name l))
      else case validate_fuel k this [type] of
             None \<Rightarrow> None
           | Some r \<Rightarrow> validate_loop_fuel k (insert name identifiers) (snd r) nodes)"
| "validate_loop_fuel (Suc k) identifiers this (Some (ASTNodeTypeDecl l name type endian) # nodes) =
     (if name \<in> identifiers then Some (Inl (redefinitionOfIdentifier name l))
      else case validate_fuel k this [type] of
             None \<Rightarrow> None
           | Some r \<Rightarrow> validate_loop_fuel k (insert name identifiers) (snd r) nodes)"
| "validate_loop_fuel (Suc k) identifiers this (Some (ASTNodeStruct l members) # nodes) =
     (case validate_fuel k this members of
        None \<Rightarrow> None
      | Some r \<Rightarrow> validate_loop_fuel k identifiers (snd r) nodes)"
| "validate_loop_fuel (Suc k) identifiers this (Some (ASTNodeUnion l members) # nodes) =
     (case validate_fuel k this members of
        None \<Rightarrow> None
      | Some r \<Rightarrow> validate_loop_fuel k identifiers (snd r) nodes)"
| "validate_loop_fuel (Suc k) identifiers this (Some (ASTNodeEnum l entries) # nodes) =
     (case enum_loop {} entries of
        Some e \<Rightarrow> Some (Inl e)
      | None \<Rightarrow> validate_loop_fuel k identifiers this nodes)"
| "validate_loop_fuel (Suc k) identifiers this (Some (ASTNodeIntegerLiteral l v) # nodes) =
     validate_loop_fuel k identifiers this nodes"
| "validate_loop_fuel (Suc k) identifiers this (Some (ASTNodeNumericExpression l lhs op rhs) # nodes) =
     validate_loop_fuel k identifiers this nodes"
| "validate_loop_fuel (Suc k) identifiers this (Some (ASTNodeBuiltinType l t) # nodes) =
     validate_loop_fuel k identifiers this nodes"
| "validate_loop_fuel (Suc k) identifiers this (Some (ASTNodeRValue l path) # nodes) =
     validate_loop_fuel k identifiers this nodes"
| "validate_loop_fuel (Suc k) identifiers this
       (Some (ASTNodePointerVariableDecl l name type sizeType offset) # nodes) =
     validate_loop_fuel k identifiers this nodes"
| "validate_loop_fuel (Suc k) identifiers this (Some (ASTNodeArrayVariableDecl l name type sz offset) # nodes) =
     validate_loop_fuel k identifiers this nodes"
| "validate_loop_fuel (Suc k) identifiers this (Some (ASTNodeBitfield l entries) # nodes) =
     validate_loop_fuel k identifiers this nodes"

subsection \<open>What a call does to the validator\<close>

text \<open>
  A call either leaves the validator as it was or overwrites \<open>m_error\<close> with a diagnostic
  that does not depend on the validator it started from.
\<close>

definition overwrites :: "(Validator \<Rightarrow> Validator) \<Rightarrow> bool" where
  "overwrites f \<longleftrightarrow> f = (\<lambda>this. this) \<or> (\<exists>e. f = (\<lambda>this. this\<lparr>m_error := e\<rparr>))"

definition loop_uniform :: "string set \<Rightarrow> ASTNode option list \<Rightarrow> bool" where
  "loop_uniform ids nodes \<longleftrightarrow>
     (\<exists>e. \<forall>this. validate_loop ids this nodes = Inl e) \<or>
     (\<exists>f. overwrites f \<and> (\<forall>this. validate_loop ids this nodes = Inr (f this)))"

definition validate_uniform :: "ASTNode option list \<Rightarrow> bool" where
  "validate_uniform ast \<longleftrightarrow> (\<exists>b f. overwrites f \<and> (\<forall>this. validate this ast = (b, f this)))"

section \<open>Properties\<close>

subsection \<open>Facts about the loop\<close>

lemma declNames_append: "declNames (xs @ ys) = declNames xs @ declNames ys"
  by (induction xs rule: declNames.induct) (auto split: option.splits)

lemma in_declNames_iff:
  "name \<in> set (declNames ast) \<longleftrightarrow> (\<exists>d. Some d \<in> set ast \<and> declName d = Some name)"
  by (induction ast rule: declNames.induct) (auto split: option.splits)

lemma mset_declNames:
  "mset (declNames ast) =
     image_mset the (filter_mset (\<lambda>x. x \<noteq> None) (image_mset (\<lambda>x. Option.bind x declName) (mset ast)))"
  by (induction ast rule: declNames.induct) (auto split: option.splits)

lemma enum_loop_None_iff:
  "enum_loop ids entries = None \<longleftrightarrow> distinct (map fst entries) \<and> fst ` set entries \<inter> ids = {}"
  by (induction ids entries rule: enum_loop.induct) auto

lemma enum_loop_Some_distinct:
  "enum_loop {} entries = Some e \<Longrightarrow> \<not> distinct (map fst entries)"
  using enum_loop_None_iff [of "{}" entries] by auto

lemma enum_loop_first:
  "distinct (map fst pre) \<Longrightarrow> fst ` set pre \<inter> ids = {} \<Longrightarrow> name \<in> fst ` set pre \<union> ids \<Longrightarrow>
   enum_loop ids (pre @ (name, v) # post) = Some (redefinitionOfEnumConstant name (getLineNumber v))"
  by (induction ids pre rule: enum_loop.induct) auto

text \<open>
  The loop over \<open>pre @ rest\<close> is the loop over \<open>pre\<close> followed, when nothing was thrown, by
  the loop over \<open>rest\<close> with the names of \<open>pre\<close> added to \<open>identifiers\<close>.
\<close>

lemma validate_loop_append:
  "validate_loop ids this (pre @ rest) =
     (case validate_loop ids this pre of
        Inl e \<Rightarrow> Inl e
      | Inr this' \<Rightarrow> validate_loop (ids \<union> set (declNames pre)) this' rest)"
proof (induction pre arbitrary: ids this)
  case Nil
  show ?case by simp
next
  case (Cons x pre)
  show ?case
  proof (cases x)
    case None
    then show ?thesis by simp
  next
    case (Some node)
    then show ?thesis
      by (cases node)
         (simp_all add: Cons.IH Un_commute Un_left_commute del: validate.simps
            split: option.splits sum.splits)
  qed
qed

text \<open>
  Something is thrown in a call exactly when its own list holds a null reference, a name
  declared twice (or already in \<open>identifiers\<close>), or an enum with a repeated constant. The
  lists below its nodes play no part.
\<close>

lemma validate_loop_fails_iff:
  "isl (validate_loop ids this ast) \<longleftrightarrow>
     None \<in> set ast \<or> \<not> distinct (declNames ast) \<or> set (declNames ast) \<inter> ids \<noteq> {} \<or>
     (\<exists>x \<in> set ast. \<not> distinct (map fst (enumEntries x)))"
proof (induction ast arbitrary: ids this)
  case Nil
  show ?case by simp
next
  case (Cons x ast)
  show ?case
  proof (cases x)
    case None
    then show ?thesis by simp
  next
    case (Some node)
    then show ?thesis
      by (cases node)
         (auto simp add: Cons.IH enum_loop_None_iff simp del: validate.simps
               dest: enum_loop_Some_distinct split: option.splits)
  qed
qed

lemma validate_fails_iff:
  "\<not> fst (validate this ast) \<longleftrightarrow>
     None \<in> set ast \<or> \<not> distinct (declNames ast) \<or>
     (\<exists>x \<in> set ast. \<not> distinct (map fst (enumEntries x)))"
  using validate_loop_fails_iff [of "{}" this ast]
  by (auto split: sum.splits)

lemma validate_passes_loop:
  "fst (validate this ast) \<Longrightarrow> \<exists>this'. validate_loop {} this ast = Inr this'"
  by (simp split: sum.splits)

lemma validate_loop_redefinition:
  "declName d = Some name \<Longrightarrow> name \<in> ids \<Longrightarrow>
   validate_loop ids this (Some d # rest) = Inl (redefinitionOfIdentifier name (getLineNumber d))"
  by (cases d) simp_all

lemma validate_loop_unchecked:
  "\<not> checked node \<Longrightarrow> validate_loop ids this (Some node # nodes) = validate_loop ids this nodes"
  by (cases node) simp_all

lemma validate_verdict_mset:
  assumes "mset ast' = mset ast"
  shows "fst (validate this ast') = fst (validate this ast)"
proof -
  from assms have "set ast' = set ast" by (rule mset_eq_setD)
  moreover from assms have "mset (declNames ast') = mset (declNames ast)"
    by (simp add: mset_declNames)
  then have "distinct (declNames ast') = distinct (declNames ast)"
    by (rule mset_eq_imp_distinct_iff)
  ultimately have "(\<not> fst (validate this ast')) = (\<not> fst (validate this ast))"
    by (simp only: validate_fails_iff)
  then show ?thesis by simp
qed

lemma validate_second_reported:
  assumes "declName d1 = Some name" "declName d2 = Some name"
    and "fst (validate this (A @ Some d1 # B @ C))"
  shows "validate this (A @ Some d2 # B @ Some d1 # C) =
     (False, this\<lparr>m_error := redefinitionOfIdentifier name (getLineNumber d1)\<rparr>)"
proof -
  from assms(3) have ok: "None \<notin> set (A @ Some d1 # B @ C)"
    "distinct (declNames (A @ Some d1 # B @ C))"
    "\<forall>x \<in> set (A @ Some d1 # B @ C). distinct (map fst (enumEntries x))"
    using validate_fails_iff [of this "A @ Some d1 # B @ C"] by auto
  have "enumEntries (Some d2) = []"
    using assms(2) by (cases d2) simp_all
  with ok assms(1,2) have "\<not> isl (validate_loop {} this (A @ Some d2 # B))"
    by (simp only: validate_loop_fails_iff) (auto simp add: declNames_append)
  then obtain this' where "validate_loop {} this (A @ Some d2 # B) = Inr this'"
    by (cases "validate_loop {} this (A @ Some d2 # B)") auto
  moreover have "name \<in> set (declNames (A @ Some d2 # B))"
    using assms(2) by (simp add: declNames_append)
  ultimately have "validate_loop {} this ((A @ Some d2 # B) @ Some d1 # C) =
      Inl (redefinitionOfIdentifier name (getLineNumber d1))"
    using assms(1) by (simp only: validate_loop_append) (simp add: validate_loop_redefinition)
  then show ?thesis by simp
qed

subsection \<open>C1: a failure below the top-level list\<close>

text \<open>
  C1 (the first failure at any depth ends the pass, and the caller gets a failure with that
  diagnostic) does not hold of the code. A struct whose two members are both named \<open>a\<close>:
  the call of line 34 on the member list catches the redefinition itself, stores it in
  \<open>m_error\<close> and returns false; line 34 drops that value, and the outer call returns true.
  With a null reference after the struct, the outer loop goes on to it and the caller gets
  the null diagnostic, not the first one.
\<close>

theorem C1_nested_failure_is_dropped:
  "validate newValidator
     [Some (ASTNodeStruct 1
        [Some (ASTNodeVariableDecl 2 ''a'' (Some (ASTNodeBuiltinType 2 0)) None),
         Some (ASTNodeVariableDecl 3 ''a'' (Some (ASTNodeBuiltinType 3 0)) None)])]
   = (True, newValidator\<lparr>m_error := redefinitionOfIdentifier ''a'' 3\<rparr>)
   \<and>
   validate newValidator
     [Some (ASTNodeStruct 1
        [Some (ASTNodeVariableDecl 2 ''a'' (Some (ASTNodeBuiltinType 2 0)) None),
         Some (ASTNodeVariableDecl 3 ''a'' (Some (ASTNodeBuiltinType 3 0)) None)]),
      None]
   = (False, newValidator\<lparr>m_error := nullptrError\<rparr>)"
  by simp

subsection \<open>C2: a null reference\<close>

text \<open>
  C2, as amended: when the list given to \<open>validate\<close> holds a null reference and the nodes
  before the first one pass validation by themselves, \<open>validate\<close> returns false and stores
  the diagnostic \<open>nullptr in AST. This is a bug!\<close> with line 1.
\<close>

theorem C2_top_level_null:
  assumes "fst (validate this pre)"
  shows "validate this (pre @ None # post) = (False, this\<lparr>m_error := nullptrError\<rparr>)"
proof -
  from assms obtain this' where "validate_loop {} this pre = Inr this'"
    using validate_passes_loop by blast
  then have "validate_loop {} this (pre @ None # post) = Inl nullptrError"
    by (simp add: validate_loop_append)
  then show ?thesis by simp
qed

text \<open>A declaration, a null reference, and a second declaration of the same name after it.\<close>

theorem C2_top_level_null_witness:
  "fst (validate newValidator
          [Some (ASTNodeVariableDecl 2 ''a'' (Some (ASTNodeBuiltinType 2 0)) None)])
   \<and> validate newValidator
       ([Some (ASTNodeVariableDecl 2 ''a'' (Some (ASTNodeBuiltinType 2 0)) None)]
          @ None # [Some (ASTNodeVariableDecl 3 ''a'' (Some (ASTNodeBuiltinType 3 0)) None)])
     = (False, newValidator\<lparr>m_error := nullptrError\<rparr>)"
proof -
  have h: "fst (validate newValidator
          [Some (ASTNodeVariableDecl 2 ''a'' (Some (ASTNodeBuiltinType 2 0)) None)])"
    by simp
  from h C2_top_level_null [OF h] show ?thesis by blast
qed

text \<open>
  The claim as it was stated fails when a redefinition comes before the null reference: the
  list holds a null reference, and the diagnostic is the redefinition at line 3.
\<close>

theorem C2_counterexample:
  "validate newValidator
     [Some (ASTNodeVariableDecl 2 ''a'' (Some (ASTNodeBuiltinType 2 0)) None),
      Some (ASTNodeVariableDecl 3 ''a'' (Some (ASTNodeBuiltinType 3 0)) None),
      None]
   = (False, newValidator\<lparr>m_error := redefinitionOfIdentifier ''a'' 3\<rparr>)
   \<and> redefinitionOfIdentifier ''a'' 3 \<noteq> nullptrError"
  by (simp add: redefinitionOfIdentifier_def nullptrError_def)

subsection \<open>C3: two declarations of one name in a list\<close>

text \<open>
  C3, as amended: when the list given to \<open>validate\<close> holds a declaration \<open>d2\<close> (a variable
  or a type declaration) after a declaration \<open>d1\<close> of the same name, \<open>validate\<close> returns
  false; and when the nodes before \<open>d2\<close> pass validation by themselves, the diagnostic is
  \<open>redefinition of identifier\<close> with that name, at the line of \<open>d2\<close>.
\<close>

theorem C3_redefinition_of_identifier:
  assumes "Some d1 \<in> set pre" "declName d1 = Some name" "declName d2 = Some name"
  shows "\<not> fst (validate this (pre @ Some d2 # post)) \<and>
    (fst (validate this pre) \<longrightarrow>
       validate this (pre @ Some d2 # post) =
         (False, this\<lparr>m_error := redefinitionOfIdentifier name (getLineNumber d2)\<rparr>))"
proof
  from assms have name: "name \<in> set (declNames pre)"
    using in_declNames_iff by blast
  then have "\<not> distinct (declNames (pre @ Some d2 # post))"
    using assms(3) by (simp add: declNames_append)
  then show "\<not> fst (validate this (pre @ Some d2 # post))"
    using validate_fails_iff by blast
  show "fst (validate this pre) \<longrightarrow>
       validate this (pre @ Some d2 # post) =
         (False, this\<lparr>m_error := redefinitionOfIdentifier name (getLineNumber d2)\<rparr>)"
  proof
    assume "fst (validate this pre)"
    then obtain this' where "validate_loop {} this pre = Inr this'"
      using validate_passes_loop by blast
    then have "validate_loop {} this (pre @ Some d2 # post) =
        Inl (redefinitionOfIdentifier name (getLineNumber d2))"
      using name assms(3) by (simp add: validate_loop_append validate_loop_redefinition)
    then show "validate this (pre @ Some d2 # post) =
         (False, this\<lparr>m_error := redefinitionOfIdentifier name (getLineNumber d2)\<rparr>)"
      by simp
  qed
qed

text \<open>The scenario of the specification: a type \<open>Header\<close> at line 3, a variable \<open>Header\<close> at line 5.\<close>

theorem C3_redefinition_of_identifier_witness:
  "Some (ASTNodeTypeDecl 3 ''Header'' (Some (ASTNodeBuiltinType 3 0)) None)
     \<in> set [Some (ASTNodeTypeDecl 3 ''Header'' (Some (ASTNodeBuiltinType 3 0)) None)]
   \<and> declName (ASTNodeTypeDecl 3 ''Header'' (Some (ASTNodeBuiltinType 3 0)) None) = Some ''Header''
   \<and> declName (ASTNodeVariableDecl 5 ''Header'' (Some (ASTNodeBuiltinType 5 1)) None) = Some ''Header''
   \<and> fst (validate newValidator [Some (ASTNodeTypeDecl 3 ''Header'' (Some (ASTNodeBuiltinType 3 0)) None)])
   \<and> validate newValidator
       [Some (ASTNodeTypeDecl 3 ''Header'' (Some (ASTNodeBuiltinType 3 0)) None),
        Some (ASTNodeVariableDecl 5 ''Header'' (Some (ASTNodeBuiltinType 5 1)) None)]
     = (False, newValidator\<lparr>m_error := redefinitionOfIdentifier ''Header'' 5\<rparr>)"
proof -
  have h: "fst (validate newValidator
      [Some (ASTNodeTypeDecl 3 ''Header'' (Some (ASTNodeBuiltinType 3 0)) None)])"
    by simp
  from h C3_redefinition_of_identifier
    [of "ASTNodeTypeDecl 3 ''Header'' (Some (ASTNodeBuiltinType 3 0)) None"
        "[Some (ASTNodeTypeDecl 3 ''Header'' (Some (ASTNodeBuiltinType 3 0)) None)]"
        "''Header''"
        "ASTNodeVariableDecl 5 ''Header'' (Some (ASTNodeBuiltinType 5 1)) None"
        newValidator "[]"]
  show ?thesis
    by (simp del: validate.simps validate_loop.simps)
qed

text \<open>
  The claim as it was stated fails when another failure comes first: the list holds two
  declarations of \<open>Header\<close>, and the diagnostic is that of the enum before them.
\<close>

theorem C3_counterexample:
  "validate newValidator
     [Some (ASTNodeEnum 1
        [(''RED'', ASTNodeIntegerLiteral 1 0), (''RED'', ASTNodeIntegerLiteral 2 1)]),
      Some (ASTNodeTypeDecl 3 ''Header'' (Some (ASTNodeBuiltinType 3 0)) None),
      Some (ASTNodeVariableDecl 5 ''Header'' (Some (ASTNodeBuiltinType 5 0)) None)]
   = (False, newValidator\<lparr>m_error := redefinitionOfEnumConstant ''RED'' 2\<rparr>)
   \<and> redefinitionOfEnumConstant ''RED'' 2 \<noteq> redefinitionOfIdentifier ''Header'' 5"
  by (simp add: redefinitionOfIdentifier_def redefinitionOfEnumConstant_def)

subsection \<open>C4: the scope of a member list\<close>

lemma conflict_free_validate:
  fixes this :: Validator
  shows "conflict_free ast \<Longrightarrow> validate this ast = (True, this)"
  and "conflict_free_nodes nodes \<Longrightarrow> distinct (declNames nodes) \<Longrightarrow>
       set (declNames nodes) \<inter> ids = {} \<Longrightarrow> validate_loop ids this nodes = Inr this"
proof (induction this ast and ids this nodes rule: validate_validate_loop.induct)
  case (1 this ast)
  then show ?case by simp
next
  case (4 identifiers this l name type offset nodes)
  from 4(3-5) have fresh: "name \<notin> identifiers" and sub: "conflict_free [type]"
    and rest: "conflict_free_nodes nodes" "distinct (declNames nodes)"
      "set (declNames nodes) \<inter> insert name identifiers = {}"
    by auto
  from 4(1) [OF fresh sub] have "snd (validate this [type]) = this" by simp
  with 4(2) [OF fresh rest] fresh show ?case by (simp del: validate.simps)
next
  case (5 identifiers this l name type endian nodes)
  from 5(3-5) have fresh: "name \<notin> identifiers" and sub: "conflict_free [type]"
    and rest: "conflict_free_nodes nodes" "distinct (declNames nodes)"
      "set (declNames nodes) \<inter> insert name identifiers = {}"
    by auto
  from 5(1) [OF fresh sub] have "snd (validate this [type]) = this" by simp
  with 5(2) [OF fresh rest] fresh show ?case by (simp del: validate.simps)
next
  case (6 identifiers this l members nodes)
  from 6(3-5) have sub: "conflict_free members"
    and rest: "conflict_free_nodes nodes" "distinct (declNames nodes)"
      "set (declNames nodes) \<inter> identifiers = {}"
    by auto
  from 6(1) [OF sub] have "snd (validate this members) = this" by simp
  with 6(2) [OF rest] show ?case by (simp del: validate.simps)
next
  case (7 identifiers this l members nodes)
  from 7(3-5) have sub: "conflict_free members"
    and rest: "conflict_free_nodes nodes" "distinct (declNames nodes)"
      "set (declNames nodes) \<inter> identifiers = {}"
    by auto
  from 7(1) [OF sub] have "snd (validate this members) = this" by simp
  with 7(2) [OF rest] show ?case by (simp del: validate.simps)
next
  case (8 identifiers this l entries nodes)
  from 8(2) have "enum_loop {} entries = None" by (simp add: enum_loop_None_iff)
  with 8 show ?case by simp
qed simp_all

text \<open>
  C4, as amended: a list in which every list of the tree is free of conflicts when taken by
  itself validates successfully and leaves \<open>m_error\<close> as it was. Names are compared inside
  one list only, so this covers every list in which a struct's or a union's member shares
  its name with a declaration of the enclosing list: each recursive call starts from the
  empty set of identifiers.
\<close>

theorem C4_scopes_independent:
  assumes "conflict_free ast"
  shows "validate this ast = (True, this)"
  using assms by (rule conflict_free_validate(1))

text \<open>
  The example of the claim, with a union added: the type \<open>x\<close> of the enclosing list and a
  member \<open>x\<close> in the struct and in the union.
\<close>

theorem C4_scopes_independent_witness:
  "conflict_free
     [Some (ASTNodeTypeDecl 1 ''x'' (Some (ASTNodeBuiltinType 1 0)) None),
      Some (ASTNodeStruct 2 [Some (ASTNodeVariableDecl 3 ''x'' (Some (ASTNodeBuiltinType 3 0)) None)]),
      Some (ASTNodeUnion 4 [Some (ASTNodeVariableDecl 5 ''x'' (Some (ASTNodeBuiltinType 5 0)) None)])]
   \<and> validate newValidator
     [Some (ASTNodeTypeDecl 1 ''x'' (Some (ASTNodeBuiltinType 1 0)) None),
      Some (ASTNodeStruct 2 [Some (ASTNodeVariableDecl 3 ''x'' (Some (ASTNodeBuiltinType 3 0)) None)]),
      Some (ASTNodeUnion 4 [Some (ASTNodeVariableDecl 5 ''x'' (Some (ASTNodeBuiltinType 5 0)) None)])]
     = (True, newValidator)"
proof -
  have h: "conflict_free
     [Some (ASTNodeTypeDecl 1 ''x'' (Some (ASTNodeBuiltinType 1 0)) None),
      Some (ASTNodeStruct 2 [Some (ASTNodeVariableDecl 3 ''x'' (Some (ASTNodeBuiltinType 3 0)) None)]),
      Some (ASTNodeUnion 4 [Some (ASTNodeVariableDecl 5 ''x'' (Some (ASTNodeBuiltinType 5 0)) None)])]"
    by simp
  from h C4_scopes_independent [OF h] show ?thesis by blast
qed

text \<open>
  The claim as it was stated fails when the enclosing list has a conflict of its own: the
  member \<open>x\<close> of the struct shares its name with declarations of the enclosing list, and
  \<open>validate\<close> returns false.
\<close>

theorem C4_counterexample:
  "validate newValidator
     [Some (ASTNodeTypeDecl 1 ''x'' (Some (ASTNodeBuiltinType 1 0)) None),
      Some (ASTNodeTypeDecl 2 ''x'' (Some (ASTNodeBuiltinType 2 0)) None),
      Some (ASTNodeStruct 3 [Some (ASTNodeVariableDecl 4 ''x'' (Some (ASTNodeBuiltinType 4 0)) None)])]
   = (False, newValidator\<lparr>m_error := redefinitionOfIdentifier ''x'' 2\<rparr>)"
  by simp

subsection \<open>C5: the constants of an enum\<close>

text \<open>
  C5: two enums in one list whose constants are pairwise different inside each enum validate
  successfully, whatever names the two enums share; a list holding a single enum with a
  repeated constant name fails; and the diagnostic is \<open>redefinition of enum constant\<close> for
  the first entry whose name occurred before it in the same enum, at the line of that
  entry's value node.
\<close>

theorem C5_enum_constants:
  "(distinct (map fst entries1) \<and> distinct (map fst entries2) \<longrightarrow>
      validate this [Some (ASTNodeEnum l1 entries1), Some (ASTNodeEnum l2 entries2)] = (True, this))
   \<and>
   (\<not> distinct (map fst entries) \<longrightarrow> \<not> fst (validate this [Some (ASTNodeEnum l entries)]))
   \<and>
   (distinct (map fst pre) \<and> name \<in> fst ` set pre \<longrightarrow>
      validate this [Some (ASTNodeEnum l (pre @ (name, v) # post))] =
        (False, this\<lparr>m_error := redefinitionOfEnumConstant name (getLineNumber v)\<rparr>))"
proof (intro conjI impI)
  assume "distinct (map fst entries1) \<and> distinct (map fst entries2)"
  then have "enum_loop {} entries1 = None" "enum_loop {} entries2 = None"
    by (simp_all add: enum_loop_None_iff)
  then show "validate this [Some (ASTNodeEnum l1 entries1), Some (ASTNodeEnum l2 entries2)] = (True, this)"
    by simp
next
  assume "\<not> distinct (map fst entries)"
  then show "\<not> fst (validate this [Some (ASTNodeEnum l entries)])"
    by (simp add: validate_fails_iff del: validate.simps)
next
  assume "distinct (map fst pre) \<and> name \<in> fst ` set pre"
  then have "enum_loop {} (pre @ (name, v) # post) =
      Some (redefinitionOfEnumConstant name (getLineNumber v))"
    by (intro enum_loop_first) auto
  then show "validate this [Some (ASTNodeEnum l (pre @ (name, v) # post))] =
        (False, this\<lparr>m_error := redefinitionOfEnumConstant name (getLineNumber v)\<rparr>)"
    by simp
qed

text \<open>
  Two enums that both declare \<open>A\<close>, and the scenario of the specification: \<open>RED\<close> with a
  value at line 2 and \<open>RED\<close> again with a value at line 4.
\<close>

theorem C5_enum_constants_witness:
  "validate newValidator
     [Some (ASTNodeEnum 1 [(''A'', ASTNodeIntegerLiteral 1 0)]),
      Some (ASTNodeEnum 2 [(''A'', ASTNodeIntegerLiteral 2 0)])] = (True, newValidator)
   \<and> \<not> fst (validate newValidator
       [Some (ASTNodeEnum 1 [(''RED'', ASTNodeIntegerLiteral 2 0), (''RED'', ASTNodeIntegerLiteral 4 1)])])
   \<and> validate newValidator
       [Some (ASTNodeEnum 1 ([(''RED'', ASTNodeIntegerLiteral 2 0)] @ (''RED'', ASTNodeIntegerLiteral 4 1) # []))]
     = (False, newValidator\<lparr>m_error := redefinitionOfEnumConstant ''RED'' 4\<rparr>)"
  using C5_enum_constants
    [of "[(''A'', ASTNodeIntegerLiteral 1 0)]" "[(''A'', ASTNodeIntegerLiteral 2 0)]"
        newValidator 1 2
        "[(''RED'', ASTNodeIntegerLiteral 2 0), (''RED'', ASTNodeIntegerLiteral 4 1)]" 1
        "[(''RED'', ASTNodeIntegerLiteral 2 0)]" "''RED''" "ASTNodeIntegerLiteral 4 1" "[]"]
  by (simp del: validate.simps validate_loop.simps)

subsection \<open>C6: reordering a list\<close>

text \<open>
  C6: exchanging the nodes at two positions of a list never changes the verdict; and in a
  list that passes without \<open>d2\<close>, where \<open>d2\<close> has the name of the declaration \<open>d1\<close>, the
  diagnostic is the redefinition at the line of \<open>d2\<close> when \<open>d2\<close> comes second and at the
  line of \<open>d1\<close> when the two are exchanged.
\<close>

theorem C6_reordering:
  "(i < length ast \<and> j < length ast \<longrightarrow>
      fst (validate this (ast[i := ast ! j, j := ast ! i])) = fst (validate this ast))
   \<and>
   (declName d1 = Some name \<and> declName d2 = Some name \<and> fst (validate this (A @ Some d1 # B @ C)) \<longrightarrow>
      validate this (A @ Some d1 # B @ Some d2 # C) =
        (False, this\<lparr>m_error := redefinitionOfIdentifier name (getLineNumber d2)\<rparr>) \<and>
      validate this (A @ Some d2 # B @ Some d1 # C) =
        (False, this\<lparr>m_error := redefinitionOfIdentifier name (getLineNumber d1)\<rparr>))"
proof (intro conjI impI)
  assume "i < length ast \<and> j < length ast"
  then have "mset (ast[i := ast ! j, j := ast ! i]) = mset ast"
    by (simp add: mset_swap)
  then show "fst (validate this (ast[i := ast ! j, j := ast ! i])) = fst (validate this ast)"
    by (rule validate_verdict_mset)
next
  assume h: "declName d1 = Some name \<and> declName d2 = Some name \<and>
    fst (validate this (A @ Some d1 # B @ C))"
  then show "validate this (A @ Some d2 # B @ Some d1 # C) =
        (False, this\<lparr>m_error := redefinitionOfIdentifier name (getLineNumber d1)\<rparr>)"
    by (intro validate_second_reported) auto
  from h have ok: "None \<notin> set (A @ Some d1 # B @ C)"
    "distinct (declNames (A @ Some d1 # B @ C))"
    "\<forall>x \<in> set (A @ Some d1 # B @ C). distinct (map fst (enumEntries x))"
    using validate_fails_iff [of this "A @ Some d1 # B @ C"] by auto
  have "enumEntries (Some d2) = []"
    using h by (cases d2) auto
  with ok h have "fst (validate this (A @ Some d2 # B @ C))"
    using validate_fails_iff [of this "A @ Some d2 # B @ C"] by (auto simp add: declNames_append)
  with h show "validate this (A @ Some d1 # B @ Some d2 # C) =
        (False, this\<lparr>m_error := redefinitionOfIdentifier name (getLineNumber d2)\<rparr>)"
    by (intro validate_second_reported) auto
qed

text \<open>
  Exchanging \<open>Header\<close> and \<open>Size\<close> keeps the list valid; a type \<open>Header\<close> at line 3 and a
  variable \<open>Header\<close> at line 5 give line 5 in this order and line 3 in the other.
\<close>

theorem C6_reordering_witness:
  "fst (validate newValidator
     ([Some (ASTNodeTypeDecl 3 ''Header'' (Some (ASTNodeBuiltinType 3 0)) None),
       Some (ASTNodeVariableDecl 5 ''Size'' (Some (ASTNodeBuiltinType 5 1)) None)]
      [0 := Some (ASTNodeVariableDecl 5 ''Size'' (Some (ASTNodeBuiltinType 5 1)) None),
       1 := Some (ASTNodeTypeDecl 3 ''Header'' (Some (ASTNodeBuiltinType 3 0)) None)]))
   \<and> validate newValidator
     [Some (ASTNodeTypeDecl 3 ''Header'' (Some (ASTNodeBuiltinType 3 0)) None),
      Some (ASTNodeVariableDecl 5 ''Header'' (Some (ASTNodeBuiltinType 5 1)) None)]
     = (False, newValidator\<lparr>m_error := redefinitionOfIdentifier ''Header'' 5\<rparr>)
   \<and> validate newValidator
     [Some (ASTNodeVariableDecl 5 ''Header'' (Some (ASTNodeBuiltinType 5 1)) None),
      Some (ASTNodeTypeDecl 3 ''Header'' (Some (ASTNodeBuiltinType 3 0)) None)]
     = (False, newValidator\<lparr>m_error := redefinitionOfIdentifier ''Header'' 3\<rparr>)"
proof -
  have v: "fst (validate newValidator
     [Some (ASTNodeTypeDecl 3 ''Header'' (Some (ASTNodeBuiltinType 3 0)) None),
      Some (ASTNodeVariableDecl 5 ''Size'' (Some (ASTNodeBuiltinType 5 1)) None)])"
    by simp
  have w: "fst (validate newValidator
     ([] @ Some (ASTNodeTypeDecl 3 ''Header'' (Some (ASTNodeBuiltinType 3 0)) None) # [] @ []))"
    by simp
  from v w C6_reordering
    [of 0 "[Some (ASTNodeTypeDecl 3 ''Header'' (Some (ASTNodeBuiltinType 3 0)) None),
            Some (ASTNodeVariableDecl 5 ''Size'' (Some (ASTNodeBuiltinType 5 1)) None)]"
        1 newValidator
        "ASTNodeTypeDecl 3 ''Header'' (Some (ASTNodeBuiltinType 3 0)) None" "''Header''"
        "ASTNodeVariableDecl 5 ''Header'' (Some (ASTNodeBuiltinType 5 1)) None" "[]" "[]" "[]"]
  show ?thesis
    by (simp del: validate.simps validate_loop.simps)
qed

subsection \<open>C7: running validate again\<close>

lemma overwrites_id: "overwrites (\<lambda>this. this)"
  by (simp add: overwrites_def)

lemma overwrites_set: "overwrites (\<lambda>this. this\<lparr>m_error := e\<rparr>)"
  by (auto simp add: overwrites_def)

lemma overwrites_comp: "overwrites f \<Longrightarrow> overwrites g \<Longrightarrow> overwrites (\<lambda>this. g (f this))"
  by (auto simp add: overwrites_def)

lemma overwrites_idem: "overwrites f \<Longrightarrow> f (f this) = f this"
  by (auto simp add: overwrites_def)

lemma loop_uniform_validate: "loop_uniform {} ast \<Longrightarrow> validate_uniform ast"
  unfolding loop_uniform_def validate_uniform_def
proof (elim disjE exE conjE)
  fix e assume "\<forall>this. validate_loop {} this ast = Inl e"
  then have "\<forall>this. validate this ast = (False, this\<lparr>m_error := e\<rparr>)" by simp
  then show "\<exists>b f. overwrites f \<and> (\<forall>this. validate this ast = (b, f this))"
    using overwrites_set by blast
next
  fix f assume "overwrites f" "\<forall>this. validate_loop {} this ast = Inr (f this)"
  then show "\<exists>b f. overwrites f \<and> (\<forall>this. validate this ast = (b, f this))"
    by (intro exI [of _ True] exI [of _ f]) simp
qed

lemma loop_uniform_nested:
  assumes "validate_uniform sub" "loop_uniform ids nodes"
  shows "(\<exists>e. \<forall>this. validate_loop ids (snd (validate this sub)) nodes = Inl e) \<or>
     (\<exists>f. overwrites f \<and> (\<forall>this. validate_loop ids (snd (validate this sub)) nodes = Inr (f this)))"
proof -
  from assms(1) obtain b g where g: "overwrites g" "\<And>this. validate this sub = (b, g this)"
    unfolding validate_uniform_def by blast
  from assms(2) show ?thesis
    unfolding loop_uniform_def
  proof (elim disjE exE conjE)
    fix e assume "\<forall>this. validate_loop ids this nodes = Inl e"
    then show ?thesis by simp
  next
    fix f assume "overwrites f" "\<forall>this. validate_loop ids this nodes = Inr (f this)"
    then have "overwrites (\<lambda>this. f (g this))"
      "\<forall>this. validate_loop ids (snd (validate this sub)) nodes = Inr (f (g this))"
      using g by (simp_all add: overwrites_comp)
    then show ?thesis by blast
  qed
qed

lemma validate_uniform_all:
  fixes this :: Validator
  shows "validate_uniform ast" and "loop_uniform ids nodes"
proof (induction this ast and ids this nodes rule: validate_validate_loop.induct)
  case (1 this ast)
  then show ?case by (rule loop_uniform_validate)
next
  case (2 identifiers this)
  show ?case unfolding loop_uniform_def using overwrites_id by auto
next
  case (3 identifiers this nodes)
  show ?case unfolding loop_uniform_def by auto
next
  case (4 identifiers this l name type offset nodes)
  show ?case
  proof (cases "name \<in> identifiers")
    case True
    then show ?thesis unfolding loop_uniform_def by auto
  next
    case False
    from loop_uniform_nested [OF 4(1) [OF False] 4(2) [OF False]] False
    show ?thesis unfolding loop_uniform_def by (simp del: validate.simps)
  qed
next
  case (5 identifiers this l name type endian nodes)
  show ?case
  proof (cases "name \<in> identifiers")
    case True
    then show ?thesis unfolding loop_uniform_def by auto
  next
    case False
    from loop_uniform_nested [OF 5(1) [OF False] 5(2) [OF False]] False
    show ?thesis unfolding loop_uniform_def by (simp del: validate.simps)
  qed
next
  case (6 identifiers this l members nodes)
  from loop_uniform_nested [OF 6(1) 6(2)]
  show ?case unfolding loop_uniform_def by (simp del: validate.simps)
next
  case (7 identifiers this l members nodes)
  from loop_uniform_nested [OF 7(1) 7(2)]
  show ?case unfolding loop_uniform_def by (simp del: validate.simps)
next
  case (8 identifiers this l entries nodes)
  show ?case
  proof (cases "enum_loop {} entries")
    case None
    with 8 show ?thesis unfolding loop_uniform_def by simp
  next
    case (Some e)
    then show ?thesis unfolding loop_uniform_def by auto
  qed
qed (simp_all add: loop_uniform_def)

text \<open>
  C7: a second run on the same list, started from the validator that the first run left
  behind, returns the same verdict and leaves the same validator, so the same diagnostic
  (message and line) is stored after both runs.
\<close>

theorem C7_validate_twice:
  "validate (snd (validate this ast)) ast = validate this ast"
proof -
  from validate_uniform_all(1) [of ast] obtain b f
    where f: "overwrites f" "\<And>this. validate this ast = (b, f this)"
    unfolding validate_uniform_def by blast
  then show ?thesis by (simp add: overwrites_idem del: validate.simps)
qed

subsection \<open>C8: the nodes without a branch\<close>

text \<open>
  C8: a node that is not a variable declaration, a type declaration, a struct, a union or
  an enum is stepped over: the loop goes on with the same identifiers and the same
  validator, whatever the node's children are, so no name is checked and no child is
  visited; and a list of such nodes validates successfully.
\<close>

theorem C8_other_nodes_accepted:
  "(\<not> checked node \<longrightarrow>
      validate_loop identifiers this (Some node # nodes) = validate_loop identifiers this nodes)
   \<and>
   ((\<forall>x \<in> set ast. \<exists>node. x = Some node \<and> \<not> checked node) \<longrightarrow> validate this ast = (True, this))"
proof (intro conjI impI)
  assume "\<not> checked node"
  then show "validate_loop identifiers this (Some node # nodes) = validate_loop identifiers this nodes"
    by (rule validate_loop_unchecked)
next
  assume "\<forall>x \<in> set ast. \<exists>node. x = Some node \<and> \<not> checked node"
  then have "validate_loop {} this ast = Inr this"
    by (induction ast) (auto simp add: validate_loop_unchecked)
  then show "validate this ast = (True, this)" by simp
qed

text \<open>
  A bitfield with two entries named \<open>a\<close>, two pointer and two array declarations all
  named \<open>p\<close> (one of them with null children), a literal, an expression and an rvalue.
\<close>

theorem C8_other_nodes_accepted_witness:
  "\<not> checked (ASTNodeBitfield 1 [(''a'', ASTNodeIntegerLiteral 2 1), (''a'', ASTNodeIntegerLiteral 3 1)])
   \<and> validate_loop {''p''} newValidator
       [Some (ASTNodeBitfield 1 [(''a'', ASTNodeIntegerLiteral 2 1), (''a'', ASTNodeIntegerLiteral 3 1)])]
     = Inr newValidator
   \<and> validate newValidator
       [Some (ASTNodeBitfield 1 [(''a'', ASTNodeIntegerLiteral 2 1), (''a'', ASTNodeIntegerLiteral 3 1)]),
        Some (ASTNodePointerVariableDecl 4 ''p'' (Some (ASTNodeBuiltinType 4 0)) (Some (ASTNodeBuiltinType 4 1)) None),
        Some (ASTNodePointerVariableDecl 5 ''p'' None None None),
        Some (ASTNodeArrayVariableDecl 6 ''p'' (Some (ASTNodeBuiltinType 6 0)) (Some (ASTNodeIntegerLiteral 6 4)) None),
        Some (ASTNodeArrayVariableDecl 7 ''p'' (Some (ASTNodeBuiltinType 7 0)) (Some (ASTNodeIntegerLiteral 7 4)) None),
        Some (ASTNodeIntegerLiteral 8 0),
        Some (ASTNodeNumericExpression 9 (Some (ASTNodeIntegerLiteral 9 1)) Plus None),
        Some (ASTNodeRValue 10 [''a'', ''b''])]
     = (True, newValidator)"
  using C8_other_nodes_accepted
    [of "ASTNodeBitfield 1 [(''a'', ASTNodeIntegerLiteral 2 1), (''a'', ASTNodeIntegerLiteral 3 1)]"
        "{''p''}" newValidator "[]"
       "[Some (ASTNodeBitfield 1 [(''a'', ASTNodeIntegerLiteral 2 1), (''a'', ASTNodeIntegerLiteral 3 1)]),
        Some (ASTNodePointerVariableDecl 4 ''p'' (Some (ASTNodeBuiltinType 4 0)) (Some (ASTNodeBuiltinType 4 1)) None),
        Some (ASTNodePointerVariableDecl 5 ''p'' None None None),
        Some (ASTNodeArrayVariableDecl 6 ''p'' (Some (ASTNodeBuiltinType 6 0)) (Some (ASTNodeIntegerLiteral 6 4)) None),
        Some (ASTNodeArrayVariableDecl 7 ''p'' (Some (ASTNodeBuiltinType 7 0)) (Some (ASTNodeIntegerLiteral 7 4)) None),
        Some (ASTNodeIntegerLiteral 8 0),
        Some (ASTNodeNumericExpression 9 (Some (ASTNodeIntegerLiteral 9 1)) Plus None),
        Some (ASTNodeRValue 10 [''a'', ''b''])]"]
  by (simp del: validate.simps)

subsection \<open>C9: termination\<close>

lemma validate_fuel_enough:
  "(\<forall>this ast. 2 * countList ast + 2 \<le> k \<longrightarrow> validate_fuel k this ast = Some (validate this ast)) \<and>
   (\<forall>ids this nodes. 2 * countList nodes + 1 \<le> k \<longrightarrow>
      validate_loop_fuel k ids this nodes = Some (validate_loop ids this nodes))"
proof (induction k)
  case 0
  show ?case by simp
next
  case (Suc k)
  then have v: "\<And>this ast. 2 * countList ast + 2 \<le> k \<Longrightarrow> validate_fuel k this ast = Some (validate this ast)"
    and l: "\<And>ids this nodes. 2 * countList nodes + 1 \<le> k \<Longrightarrow>
      validate_loop_fuel k ids this nodes = Some (validate_loop ids this nodes)"
    by blast+
  have "validate_fuel (Suc k) this ast = Some (validate this ast)"
    if "2 * countList ast + 2 \<le> Suc k" for this ast
  proof -
    from that have "2 * countList ast + 1 \<le> k" by simp
    then show ?thesis by (simp add: l split: sum.splits)
  qed
  moreover have "validate_loop_fuel (Suc k) ids this nodes = Some (validate_loop ids this nodes)"
    if "2 * countList nodes + 1 \<le> Suc k" for ids this nodes
  proof (cases nodes)
    case Nil
    then show ?thesis by simp
  next
    case (Cons x rest)
    show ?thesis
    proof (cases x)
      case None
      with Cons show ?thesis by simp
    next
      case (Some node)
      have pos: "1 \<le> countNode n" for n by (cases n) simp_all
      from that Cons Some have rest: "2 * countList rest + 1 \<le> k"
        using pos [of node] by simp
      show ?thesis
      proof (cases node)
        case (ASTNodeTypeDecl l name type endian)
        with that Cons Some have "2 * countList [type] + 2 \<le> k" "2 * countList rest + 1 \<le> k"
          by simp_all
        with Cons Some ASTNodeTypeDecl show ?thesis
          by (simp add: v l del: validate.simps)
      next
        case (ASTNodeVariableDecl l name type offset)
        with that Cons Some have "2 * countList [type] + 2 \<le> k" "2 * countList rest + 1 \<le> k"
          by simp_all
        with Cons Some ASTNodeVariableDecl show ?thesis
          by (simp add: v l del: validate.simps)
      next
        case (ASTNodeStruct l members)
        with that Cons Some have "2 * countList members + 2 \<le> k" "2 * countList rest + 1 \<le> k"
          by simp_all
        with Cons Some ASTNodeStruct show ?thesis
          by (simp add: v l del: validate.simps)
      next
        case (ASTNodeUnion l members)
        with that Cons Some have "2 * countList members + 2 \<le> k" "2 * countList rest + 1 \<le> k"
          by simp_all
        with Cons Some ASTNodeUnion show ?thesis
          by (simp add: v l del: validate.simps)
      next
        case (ASTNodeEnum l entries)
        with Cons Some rest show ?thesis
          by (simp add: l split: option.splits)
      qed (use Cons Some rest in \<open>simp_all add: l\<close>)
    qed
  qed
  ultimately show ?case by blast
qed

text \<open>
  C9: \<open>validate\<close> returns on every list: with fuel for twice the number of node
  references of the tree plus two, the call returns, and it returns what the method
  returns. The bound is linear in the size of the AST.
\<close>

theorem C9_validate_terminates:
  assumes "2 * countList ast + 2 \<le> k"
  shows "validate_fuel k this ast = Some (validate this ast)"
  using assms validate_fuel_enough by blast

text \<open>The list of the example of C4 has six node references.\<close>

theorem C9_validate_terminates_witness:
  "2 * countList
     [Some (ASTNodeTypeDecl 1 ''x'' (Some (ASTNodeBuiltinType 1 0)) None),
      Some (ASTNodeStruct 2 [Some (ASTNodeVariableDecl 3 ''x'' (Some (ASTNodeBuiltinType 3 0)) None)])]
     + 2 \<le> 14
   \<and> validate_fuel 14 newValidator
     [Some (ASTNodeTypeDecl 1 ''x'' (Some (ASTNodeBuiltinType 1 0)) None),
      Some (ASTNodeStruct 2 [Some (ASTNodeVariableDecl 3 ''x'' (Some (ASTNodeBuiltinType 3 0)) None)])]
     = Some (True, newValidator)"
proof -
  have h: "2 * countList
     [Some (ASTNodeTypeDecl 1 ''x'' (Some (ASTNodeBuiltinType 1 0)) None),
      Some (ASTNodeStruct 2 [Some (ASTNodeVariableDecl 3 ''x'' (Some (ASTNodeBuiltinType 3 0)) None)])]
     + 2 \<le> 14"
    by simp
  from h C9_validate_terminates [OF h, of newValidator] show ?thesis by simp
qed

subsection \<open>C10: anonymous type declarations\<close>

text \<open>
  C10: a type declaration with the empty name is treated as any other: the empty name is
  looked up in \<open>identifiers\<close> and inserted; the list of two anonymous type declarations
  fails with \<open>redefinition of identifier\<close> at the line of the second; and every list that
  holds two of them fails.
\<close>

theorem C10_anonymous_type_declarations:
  "validate_loop identifiers this (Some (ASTNodeTypeDecl l [] type endian) # nodes) =
     (if [] \<in> identifiers then Inl (redefinitionOfIdentifier [] l)
      else validate_loop (insert [] identifiers) (snd (validate this [type])) nodes)
   \<and>
   validate this [Some (ASTNodeTypeDecl l1 [] type1 endian1), Some (ASTNodeTypeDecl l2 [] type2 endian2)] =
     (False, this\<lparr>m_error := redefinitionOfIdentifier [] l2\<rparr>)
   \<and>
   \<not> fst (validate this
       (pre @ Some (ASTNodeTypeDecl l1 [] type1 endian1) # mid @
          Some (ASTNodeTypeDecl l2 [] type2 endian2) # post))"
proof (intro conjI)
  show "validate_loop identifiers this (Some (ASTNodeTypeDecl l [] type endian) # nodes) =
     (if [] \<in> identifiers then Inl (redefinitionOfIdentifier [] l)
      else validate_loop (insert [] identifiers) (snd (validate this [type])) nodes)"
    by (simp del: validate.simps)
  show "validate this [Some (ASTNodeTypeDecl l1 [] type1 endian1), Some (ASTNodeTypeDecl l2 [] type2 endian2)] =
     (False, this\<lparr>m_error := redefinitionOfIdentifier [] l2\<rparr>)"
    by simp
  have "\<not> distinct (declNames (pre @ Some (ASTNodeTypeDecl l1 [] type1 endian1) # mid @
          Some (ASTNodeTypeDecl l2 [] type2 endian2) # post))"
    by (auto simp add: declNames_append)
  then show "\<not> fst (validate this
       (pre @ Some (ASTNodeTypeDecl l1 [] type1 endian1) # mid @
          Some (ASTNodeTypeDecl l2 [] type2 endian2) # post))"
    using validate_fails_iff by blast
qed

end
